theory Spec2Isabelle
  imports Main "HOL-Library.AList"
begin

section \<open>The spire Assembly: data model\<close>

text \<open>
  Embedding of \<^verbatim>\<open>spire/core/assembly.py\<close> (Python 2). Exceptions are values of the
  type \<open>'e error\<close>: the built-in ones the module can raise by itself, and \<open>Raised e\<close>
  for whatever a callback (an instantiator, a schema) raises.
\<close>

datatype 'e error =
    KeyError string
  | IndexError
  | Exception
  | RuntimeError
  | Raised 'e

subsection \<open>The thread-local current assembly\<close>

text \<open>
  \<^verbatim>\<open>class Local(local): assembly = None\<close> is a single slot per thread;
  \<^verbatim>\<open>Assembly.standard\<close> is the assembly made at import time. Assemblies are
  compared with \<^verbatim>\<open>is\<close>, so an assembly is represented by its identity \<open>'a\<close>.
\<close>

record 'a locals =
  local_assembly :: "'a option"
  standard :: 'a

text \<open>\<^verbatim>\<open>return cls.local.assembly or cls.standard\<close> (an Assembly object is truthy).\<close>

definition current :: "'a locals \<Rightarrow> 'a" where
  "current c = (case local_assembly c of Some a \<Rightarrow> a | None \<Rightarrow> standard c)"

text \<open>\<^verbatim>\<open>self.local.assembly = self; return self\<close>\<close>

definition promote :: "'a \<Rightarrow> 'a locals \<Rightarrow> 'a \<times> 'a locals" where
  "promote self c = (self, c\<lparr>local_assembly := Some self\<rparr>)"

text \<open>\<^verbatim>\<open>if self.local.assembly is self: self.local.assembly = None; return self\<close>\<close>

definition demote :: "'a \<Rightarrow> 'a locals \<Rightarrow> 'a \<times> 'a locals" where
  "demote self c =
     (self, if local_assembly c = Some self then c\<lparr>local_assembly := None\<rparr> else c)"

text \<open>
  \<^verbatim>\<open>def __enter__(self): self.promote()\<close> and
  \<^verbatim>\<open>def __exit__(self, *args): self.demote()\<close> have no \<^verbatim>\<open>return\<close>: the value
  of the call is Python's \<^verbatim>\<open>None\<close>, here \<open>None :: 'a option\<close>.
\<close>

definition enter :: "'a \<Rightarrow> 'a locals \<Rightarrow> 'a option \<times> 'a locals" where
  "enter self c = (case promote self c of (_, c') \<Rightarrow> (None, c'))"

definition exit :: "'a \<Rightarrow> 'a locals \<Rightarrow> 'a option \<times> 'a locals" where
  "exit self c = (case demote self c of (_, c') \<Rightarrow> (None, c'))"

text \<open>
  \<^verbatim>\<open>with self as x: body\<close>. The body sees the target \<open>x\<close> and the context, may
  change the context, and returns or raises. \<^verbatim>\<open>__exit__\<close> runs on both paths and
  returns \<^verbatim>\<open>None\<close>, which is falsy, so an exception of the body propagates.
\<close>

definition with_assembly ::
  "'a \<Rightarrow> ('a option \<Rightarrow> 'a locals \<Rightarrow> ('e error + 'r) \<times> 'a locals) \<Rightarrow> 'a locals
     \<Rightarrow> ('e error + 'r) \<times> 'a locals" where
  "with_assembly self body c =
     (case enter self c of (x, c1) \<Rightarrow>
        (case body x c1 of (r, c2) \<Rightarrow>
           (case exit self c2 of (_, c3) \<Rightarrow> (r, c3))))"

subsection \<open>Configuration data and dictionaries\<close>

text \<open>
  Configuration data is a nested mapping with string keys. A Python \<^verbatim>\<open>dict\<close> is an
  association list: its order is the order in which the dictionary is iterated (which
  Python 2 leaves unspecified, so no property below depends on a particular order), and
  the keys of a dictionary are distinct. \<open>map_of\<close> is the lookup, \<open>AList.update\<close> is
  \<^verbatim>\<open>d[k] = v\<close> (a new key goes to the end) and \<open>AList.delete\<close> removes a key.
\<close>

datatype 'v val =
    Atom 'v
  | Dict "(string \<times> 'v val) list"

type_synonym 'v dict = "(string \<times> 'v val) list"

text \<open>
  Modelled from the spec: \<^verbatim>\<open>spire.util.recursive_merge(original, addition)\<close>, which
  \<^verbatim>\<open>assembly.py\<close> imports and whose source is missing. The spec: "nested mappings
  merge key-by-key (recursively); non-mapping values at a given key are replaced, not
  merged." Each key of \<open>addition\<close> is stored into \<open>original\<close>; only when both the old
  and the new value are mappings is the stored value their recursive merge.
\<close>

function recursive_merge :: "'v dict \<Rightarrow> 'v dict \<Rightarrow> 'v dict" where
  "recursive_merge original [] = original"
| "recursive_merge original ((key, Atom a) # addition) =
     recursive_merge (AList.update key (Atom a) original) addition"
| "recursive_merge original ((key, Dict d) # addition) =
     recursive_merge
       (case map_of original key of
          Some (Dict source) \<Rightarrow> AList.update key (Dict (recursive_merge source d)) original
        | _ \<Rightarrow> AList.update key (Dict d) original)
       addition"
  by pat_completeness auto
termination
  by (relation "measure (\<lambda>(original, addition). size_list (size_prod (\<lambda>_. 0) size) addition)")
     auto

subsection \<open>The Assembly\<close>

text \<open>
  \<^verbatim>\<open>__init__\<close> creates \<^verbatim>\<open>cache\<close>, \<^verbatim>\<open>configuration\<close>, \<^verbatim>\<open>pending\<close> (empty
  dictionaries), \<^verbatim>\<open>guard = RLock()\<close> and \<^verbatim>\<open>principals\<close> (never read or written
  by the module, left out). \<open>guard\<close> is the number of times the running thread holds the
  reentrant lock. \<open>journal\<close> is a ghost field: every write to one of the three
  dictionaries appends which dictionary was written and the value of \<open>guard\<close> at that
  moment, so that "written while the lock is held" can be stated.
\<close>

datatype store = Cache | Configuration | Pending

record ('u, 'v) assembly =
  cache :: "(string \<times> 'u) list"
  configuration :: "'v dict"
  pending :: "'v dict"
  guard :: nat
  journal :: "(store \<times> nat) list"

definition init :: "('u, 'v) assembly" where
  "init = \<lparr>cache = [], configuration = [], pending = [], guard = 0, journal = []\<rparr>"

definition write_cache :: "(string \<times> 'u) list \<Rightarrow> ('u, 'v) assembly \<Rightarrow> ('u, 'v) assembly" where
  "write_cache c s = s\<lparr>cache := c, journal := journal s @ [(Cache, guard s)]\<rparr>"

definition write_configuration :: "'v dict \<Rightarrow> ('u, 'v) assembly \<Rightarrow> ('u, 'v) assembly" where
  "write_configuration c s =
     s\<lparr>configuration := c, journal := journal s @ [(Configuration, guard s)]\<rparr>"

definition write_pending :: "'v dict \<Rightarrow> ('u, 'v) assembly \<Rightarrow> ('u, 'v) assembly" where
  "write_pending p s = s\<lparr>pending := p, journal := journal s @ [(Pending, guard s)]\<rparr>"

text \<open>Every journalled write happened with the lock held.\<close>

definition guarded :: "(store \<times> nat) list \<Rightarrow> bool" where
  "guarded j = list_all (\<lambda>(_, depth). 0 < depth) j"

text \<open>\<^verbatim>\<open>self.guard.acquire()\<close>: the owner of a reentrant lock takes it once more.\<close>

definition guard_acquire :: "('u, 'v) assembly \<Rightarrow> ('u, 'v) assembly" where
  "guard_acquire s = s\<lparr>guard := Suc (guard s)\<rparr>"

text \<open>
  \<^verbatim>\<open>finally: self.guard.release()\<close>: runs on the normal and on the exceptional
  path and leaves the outcome of the \<^verbatim>\<open>try\<close> block as it is. Releasing an
  \<^verbatim>\<open>RLock\<close> that is not held raises \<^verbatim>\<open>RuntimeError\<close>, which then replaces that
  outcome.
\<close>

definition finally_release ::
  "('e error + 'r) \<times> ('u, 'v) assembly \<Rightarrow> ('e error + 'r) \<times> ('u, 'v) assembly" where
  "finally_release rs =
     (case rs of (r, s) \<Rightarrow>
        if guard s = 0 then (Inl RuntimeError, s) else (r, s\<lparr>guard := guard s - 1\<rparr>))"

subsection \<open>acquire and instantiate\<close>

text \<open>
  An instantiator is a callable. It returns an instance or raises, and while it runs it
  may call back into the assembly (a unit's constructor instantiates its dependencies
  through the same assembly), so it is a function of the arguments and the assembly that
  returns the outcome and the assembly as it left it.
\<close>

type_synonym ('x, 'u, 'v, 'e) instantiator =
  "'x list \<Rightarrow> ('u, 'v) assembly \<Rightarrow> ('e error + 'u) \<times> ('u, 'v) assembly"

definition acquire ::
  "string \<Rightarrow> ('x, 'u, 'v, 'e) instantiator \<Rightarrow> 'x list \<Rightarrow> ('u, 'v) assembly
     \<Rightarrow> ('e error + 'u) \<times> ('u, 'v) assembly" where
  "acquire key instantiator arguments s =
     (let s0 = guard_acquire s in
      finally_release
        (case map_of (cache s0) key of
           Some instance \<Rightarrow> (Inr instance, s0)
         | None \<Rightarrow>
             (case instantiator arguments s0 of
                (Inl e, s1) \<Rightarrow> (Inl e, s1)
              | (Inr instance, s1) \<Rightarrow>
                  (Inr instance, write_cache (AList.update key instance (cache s1)) s1))))"

text \<open>
  A unit class has a class-level \<^verbatim>\<open>identity\<close> and is itself the instantiator.
  \<^verbatim>\<open>instantiate\<close> takes a class or a string; a string goes through
  \<^verbatim>\<open>import_object\<close>, whose source is missing and which is a parameter here.
\<close>

record ('x, 'u, 'v, 'e) unit_class =
  identity :: string
  construct :: "('x, 'u, 'v, 'e) instantiator"

datatype ('x, 'u, 'v, 'e) unit_ref =
    ByName string
  | ByClass "('x, 'u, 'v, 'e) unit_class"

definition instantiate ::
  "(string \<Rightarrow> 'e error + ('x, 'u, 'v, 'e) unit_class) \<Rightarrow> ('x, 'u, 'v, 'e) unit_ref
     \<Rightarrow> ('u, 'v) assembly \<Rightarrow> ('e error + 'u) \<times> ('u, 'v) assembly" where
  "instantiate import_object unit s =
     (case unit of
        ByName name \<Rightarrow>
          (case import_object name of
             Inl e \<Rightarrow> (Inl e, s)
           | Inr cls \<Rightarrow> acquire (identity cls) (construct cls) [] s)
      | ByClass cls \<Rightarrow> acquire (identity cls) (construct cls) [] s)"

subsection \<open>configure and get_configuration\<close>

text \<open>
  \<^verbatim>\<open>Registry.schemas\<close> (source missing) is a dictionary from tokens to schemas and is
  only looked up with \<^verbatim>\<open>get\<close>: a parameter of type \<open>string \<Rightarrow> schema option\<close>. A
  schema is used through \<^verbatim>\<open>schema.process(data, serialized=True)\<close> alone, which
  returns the validated data or raises; a registered schema object is truthy.
\<close>

type_synonym ('v, 'e) schema = "'v val \<Rightarrow> 'e error + 'v val"

type_synonym ('v, 'e) schemas = "string \<Rightarrow> ('v, 'e) schema option"

text \<open>
  The loop of \<^verbatim>\<open>configure\<close> over \<^verbatim>\<open>configuration.iteritems()\<close>. It takes no
  lock. A schema that raises ends the loop with the earlier tokens already merged.
\<close>

fun configure_items ::
  "('v, 'e) schemas \<Rightarrow> 'v dict \<Rightarrow> ('u, 'v) assembly \<Rightarrow> ('e error + unit) \<times> ('u, 'v) assembly" where
  "configure_items schemas [] s = (Inr (), s)"
| "configure_items schemas ((token, data) # rest) s =
     (case schemas token of
        Some schema \<Rightarrow>
          (case schema data of
             Inl e \<Rightarrow> (Inl e, s)
           | Inr data' \<Rightarrow>
               configure_items schemas rest
                 (write_configuration (recursive_merge (configuration s) [(token, data')]) s))
      | None \<Rightarrow>
          configure_items schemas rest
            (write_pending (recursive_merge (pending s) [(token, data)]) s))"

definition configure ::
  "('v, 'e) schemas \<Rightarrow> 'v dict \<Rightarrow> ('u, 'v) assembly \<Rightarrow> ('e error + unit) \<times> ('u, 'v) assembly" where
  "configure schemas config s = configure_items schemas config s"

text \<open>
  The loop of \<^verbatim>\<open>get_configuration\<close>:
  \<^verbatim>\<open>for token in self.pending.keys(): ...\<close>. The loop variable is the method's own
  parameter \<^verbatim>\<open>token\<close>, so the loop assigns to it; the function returns the value the
  variable has when the loop ends. \<^verbatim>\<open>keys()\<close> is a copy taken before the loop.
  \<^verbatim>\<open>self.pending.pop(token)\<close> is evaluated before \<^verbatim>\<open>schema.process\<close> is called.
\<close>

fun resolve_pending ::
  "('v, 'e) schemas \<Rightarrow> string list \<Rightarrow> string \<Rightarrow> ('u, 'v) assembly
     \<Rightarrow> ('e error + string) \<times> ('u, 'v) assembly" where
  "resolve_pending schemas [] token s = (Inr token, s)"
| "resolve_pending schemas (k # keys) token s =
     (case schemas k of
        Some schema \<Rightarrow>
          (case map_of (pending s) k of
             None \<Rightarrow> (Inl (KeyError k), s)
           | Some raw \<Rightarrow>
               (let s1 = write_pending (AList.delete k (pending s)) s in
                case schema raw of
                  Inl e \<Rightarrow> (Inl e, s1)
                | Inr data \<Rightarrow>
                    resolve_pending schemas keys k
                      (write_configuration (recursive_merge (configuration s1) [(k, data)]) s1)))
      | None \<Rightarrow> resolve_pending schemas keys k s)"

definition get_configuration ::
  "('v, 'e) schemas \<Rightarrow> string \<Rightarrow> ('u, 'v) assembly \<Rightarrow> ('e error + 'v val) \<times> ('u, 'v) assembly" where
  "get_configuration schemas token s =
     (case map_of (configuration s) token of
        Some data \<Rightarrow> (Inr data, s)
      | None \<Rightarrow>
          (let s0 = guard_acquire s in
           case finally_release (resolve_pending schemas (map fst (pending s0)) token s0) of
             (Inl e, s1) \<Rightarrow> (Inl e, s1)
           | (Inr token', s1) \<Rightarrow>
               (case map_of (configuration s1) token' of
                  Some data \<Rightarrow> (Inr data, s1)
                | None \<Rightarrow> (Inl (KeyError token'), s1))))"

subsection \<open>filter_configuration\<close>

text \<open>\<^verbatim>\<open>token.startswith(prefix)\<close>\<close>

definition startswith :: "string \<Rightarrow> string \<Rightarrow> bool" where
  "startswith token prefix = (take (length prefix) token = prefix)"

text \<open>
  \<^verbatim>\<open>for token, data in self.configuration.iteritems():
      if token.startswith(prefix): filtered[token] = data\<close>
\<close>

fun filter_items :: "string \<Rightarrow> 'v dict \<Rightarrow> 'v dict \<Rightarrow> 'v dict" where
  "filter_items prefix [] filtered = filtered"
| "filter_items prefix ((token, data) # rest) filtered =
     filter_items prefix rest
       (if startswith token prefix then AList.update token data filtered else filtered)"

text \<open>
  \<^verbatim>\<open>if prefix[-1] != ':': prefix += ':'\<close>. Indexing the empty string raises
  \<^verbatim>\<open>IndexError\<close>.
\<close>

definition with_separator :: "string \<Rightarrow> string" where
  "with_separator prefix = (if last prefix \<noteq> CHR '':'' then prefix @ '':'' else prefix)"

definition normalize_prefix :: "string \<Rightarrow> 'e error + string" where
  "normalize_prefix prefix =
     (case prefix of
        [] \<Rightarrow> Inl IndexError
      | _ # _ \<Rightarrow> Inr (with_separator prefix))"

definition filter_configuration :: "string \<Rightarrow> ('u, 'v) assembly \<Rightarrow> 'e error + 'v dict" where
  "filter_configuration prefix s =
     (case normalize_prefix prefix of
        Inl e \<Rightarrow> Inl e
      | Inr prefix' \<Rightarrow> Inr (filter_items prefix' (configuration s) []))"

subsection \<open>collate\<close>

text \<open>
  The classes \<^verbatim>\<open>Unit\<close> and \<^verbatim>\<open>Dependency\<close> are not among the sources. What
  \<^verbatim>\<open>collate\<close> uses of them is a parameter: \<^verbatim>\<open>isinstance(unit, superclass)\<close>,
  \<^verbatim>\<open>issubclass(cls, superclass)\<close>, the values of \<^verbatim>\<open>unit.dependencies\<close>, and of a
  dependency its \<^verbatim>\<open>unit\<close> attribute and \<^verbatim>\<open>get(unit)\<close>. Instances \<open>'u\<close> are
  compared by identity, as the elements of a Python set of plain objects are.
\<close>

record ('u, 'c, 'd) units =
  isinstance :: "'u \<Rightarrow> 'c \<Rightarrow> bool"
  issubclass :: "'c \<Rightarrow> 'c \<Rightarrow> bool"
  dependencies :: "'u \<Rightarrow> 'd list"
  dependency_unit :: "'d \<Rightarrow> 'c"
  dependency_get :: "'d \<Rightarrow> 'u \<Rightarrow> 'u"

text \<open>
  The set \<^verbatim>\<open>units\<close> is kept as a list without duplicates; \<open>List.insert\<close> is
  \<^verbatim>\<open>units.add\<close>.
\<close>

fun collate_dependencies ::
  "('u, 'c, 'd) units \<Rightarrow> 'c \<Rightarrow> 'u \<Rightarrow> 'd list \<Rightarrow> 'u list \<Rightarrow> 'u list" where
  "collate_dependencies U superclass unit [] units = units"
| "collate_dependencies U superclass unit (dependency # rest) units =
     collate_dependencies U superclass unit rest
       (if issubclass U (dependency_unit U dependency) superclass
        then List.insert (dependency_get U dependency unit) units else units)"

fun collate_units :: "('u, 'c, 'd) units \<Rightarrow> 'c \<Rightarrow> 'u list \<Rightarrow> 'u list \<Rightarrow> 'u list" where
  "collate_units U superclass [] units = units"
| "collate_units U superclass (unit # rest) units =
     collate_units U superclass rest
       (collate_dependencies U superclass unit (dependencies U unit)
          (if isinstance U unit superclass then List.insert unit units else units))"

text \<open>What \<^verbatim>\<open>collate\<close> returns: the set, one instance, or \<^verbatim>\<open>None\<close>.\<close>

datatype 'u collated = Units "'u set" | Instance 'u | NoneValue

definition collate ::
  "('u, 'c, 'd) units \<Rightarrow> 'c \<Rightarrow> bool \<Rightarrow> ('u, 'v) assembly \<Rightarrow> 'e error + 'u collated" where
  "collate U superclass single s =
     (let units = collate_units U superclass (map snd (cache s)) [] in
      if \<not> single then Inr (Units (set units))
      else if length units > 1 then Inl Exception
      else (case units of u # _ \<Rightarrow> Inr (Instance u) | [] \<Rightarrow> Inr NoneValue))"

text \<open>
  The matching instances in the words of the specification of \<^verbatim>\<open>collate\<close>: the
  cached instances that are instances of the supertype, and for every cached unit the
  instances of its dependencies whose declared unit type is a subtype of the supertype.
\<close>

definition matching :: "('u, 'c, 'd) units \<Rightarrow> 'c \<Rightarrow> ('u, 'v) assembly \<Rightarrow> 'u set" where
  "matching U superclass s =
     set ([unit. unit \<leftarrow> map snd (cache s), isinstance U unit superclass]
          @ [dependency_get U dependency unit.
               unit \<leftarrow> map snd (cache s), dependency \<leftarrow> dependencies U unit,
               issubclass U (dependency_unit U dependency) superclass])"

text \<open>
  The merge of one key in the words of the specification: when the old and the new value
  are both mappings they are merged, in every other case the new value replaces the old.
\<close>

definition merge_value :: "'v val option \<Rightarrow> 'v val \<Rightarrow> 'v val" where
  "merge_value old new =
     (case (old, new) of
        (Some (Dict source), Dict d) \<Rightarrow> Dict (recursive_merge source d)
      | _ \<Rightarrow> new)"

text \<open>
  The entries of \<^verbatim>\<open>configuration\<close> and of \<^verbatim>\<open>pending\<close> after
  \<^verbatim>\<open>configure(config)\<close>, in the words of the specification: a token of the input
  that has a registered schema is validated and merged into \<^verbatim>\<open>configuration\<close>, a
  token of the input without one is merged raw into \<^verbatim>\<open>pending\<close>, every other
  entry stays. \<open>validates\<close>: no schema rejects its data.
\<close>

definition validates :: "('v, 'e) schemas \<Rightarrow> 'v dict \<Rightarrow> bool" where
  "validates schemas config =
     list_all (\<lambda>(token, data).
        case schemas token of None \<Rightarrow> True | Some schema \<Rightarrow> \<not> isl (schema data)) config"

definition resolved_entry ::
  "('v, 'e) schemas \<Rightarrow> 'v dict \<Rightarrow> 'v dict \<Rightarrow> string \<Rightarrow> 'v val option" where
  "resolved_entry schemas config old token =
     (case map_of config token of
        None \<Rightarrow> map_of old token
      | Some data \<Rightarrow>
          (case schemas token of
             None \<Rightarrow> map_of old token
           | Some schema \<Rightarrow>
               (case schema data of
                  Inl e \<Rightarrow> map_of old token
                | Inr data' \<Rightarrow> Some (merge_value (map_of old token) data'))))"

definition pending_entry ::
  "('v, 'e) schemas \<Rightarrow> 'v dict \<Rightarrow> 'v dict \<Rightarrow> string \<Rightarrow> 'v val option" where
  "pending_entry schemas config old token =
     (case map_of config token of
        None \<Rightarrow> map_of old token
      | Some data \<Rightarrow>
          (case schemas token of
             None \<Rightarrow> Some (merge_value (map_of old token) data)
           | Some schema \<Rightarrow> map_of old token))"

subsection \<open>Sequences of calls\<close>

text \<open>
  What happens to an assembly later: any sequence of calls of the methods that write to
  it. A call that raises leaves the assembly as the exception left it, and the caller
  may go on using it.
\<close>

datatype ('x, 'u, 'v, 'e) call =
    Acquire string "('x, 'u, 'v, 'e) instantiator" "'x list"
  | Instantiate "string \<Rightarrow> 'e error + ('x, 'u, 'v, 'e) unit_class" "('x, 'u, 'v, 'e) unit_ref"
  | Configure "('v, 'e) schemas" "'v dict"
  | GetConfiguration "('v, 'e) schemas" string

fun perform :: "('x, 'u, 'v, 'e) call \<Rightarrow> ('u, 'v) assembly \<Rightarrow> ('u, 'v) assembly" where
  "perform (Acquire key instantiator arguments) s = snd (acquire key instantiator arguments s)"
| "perform (Instantiate import_object unit) s = snd (instantiate import_object unit s)"
| "perform (Configure schemas config) s = snd (configure schemas config s)"
| "perform (GetConfiguration schemas token) s = snd (get_configuration schemas token s)"

definition run :: "('x, 'u, 'v, 'e) call list \<Rightarrow> ('u, 'v) assembly \<Rightarrow> ('u, 'v) assembly" where
  "run calls s = fold perform calls s"

text \<open>
  An instantiator that keeps the cache never removes or replaces an entry that is
  already there. The methods of \<^verbatim>\<open>Assembly\<close> give a callback no other way to the
  cache than \<^verbatim>\<open>acquire\<close>, which only adds entries.
\<close>

definition keeps_cache :: "('x, 'u, 'v, 'e) instantiator \<Rightarrow> bool" where
  "keeps_cache instantiator =
     (\<forall>arguments s key instance.
        map_of (cache s) key = Some instance \<longrightarrow>
        map_of (cache (snd (instantiator arguments s))) key = Some instance)"

fun call_keeps_cache :: "('x, 'u, 'v, 'e) call \<Rightarrow> bool" where
  "call_keeps_cache (Acquire key instantiator arguments) = keeps_cache instantiator"
| "call_keeps_cache (Instantiate import_object (ByClass cls)) = keeps_cache (construct cls)"
| "call_keeps_cache (Instantiate import_object (ByName name)) =
     (case import_object name of Inl e \<Rightarrow> True | Inr cls \<Rightarrow> keeps_cache (construct cls))"
| "call_keeps_cache (Configure schemas config) = True"
| "call_keeps_cache (GetConfiguration schemas token) = True"

subsection \<open>Concrete inputs\<close>

text \<open>
  Inputs at which the theorems below are evaluated. Assemblies and unit instances are
  numbered; atoms of configuration data are integers; callbacks raise \<open>Raised ()\<close>.
\<close>

text \<open>No assembly promoted; the standard assembly is number 0.\<close>

definition fresh_locals :: "nat locals" where
  "fresh_locals = \<lparr>local_assembly = None, standard = 0\<rparr>"

text \<open>Assembly 2 has been promoted before.\<close>

definition nested_locals :: "nat locals" where
  "nested_locals = \<lparr>local_assembly = Some 2, standard = 0\<rparr>"

text \<open>A \<^verbatim>\<open>with\<close> body that raises at once.\<close>

definition raising_body :: "nat option \<Rightarrow> nat locals \<Rightarrow> (unit error + unit) \<times> nat locals" where
  "raising_body x c = (Inl (Raised ()), c)"

text \<open>An assembly whose resolved configuration has four tokens.\<close>

definition mesh_assembly :: "(nat, int) assembly" where
  "mesh_assembly =
     init\<lparr>configuration :=
       [(''mesh:docket'', Dict [(''url'', Atom 1)]),
        (''meshwork'', Atom 2),
        (''schema:docket'', Atom 3),
        (''mesh:'', Atom 4)]\<rparr>"

text \<open>
  A schema that accepts every value as it is, and registries with no schema, with that
  schema for \<^verbatim>\<open>b\<close> only and with that schema for \<^verbatim>\<open>a\<close> only.
\<close>

definition pass_schema :: "(int, unit) schema" where
  "pass_schema data = Inr data"

definition no_schemas :: "(int, unit) schemas" where
  "no_schemas token = None"

definition only_b :: "(int, unit) schemas" where
  "only_b token = (if token = ''b'' then Some pass_schema else None)"

definition only_a :: "(int, unit) schemas" where
  "only_a token = (if token = ''a'' then Some pass_schema else None)"

text \<open>One pending token, \<^verbatim>\<open>b\<close>; nothing resolved.\<close>

definition pending_b :: "(nat, int) assembly" where
  "pending_b = init\<lparr>pending := [(''b'', Dict [(''x'', Atom 1)])]\<rparr>"

text \<open>
  Three instances: 1 and 3 are daemons, 2 is a mount with one dependency, declared as a
  daemon and resolved to instance 3. Instances 1 and 2 are cached.
\<close>

definition daemon_units :: "(nat, string, string \<times> nat) units" where
  "daemon_units =
     \<lparr>isinstance = (\<lambda>unit cls. cls = ''Unit'' \<or> (unit = 1 \<or> unit = 3) \<and> cls = ''Daemon''
                        \<or> unit = 2 \<and> cls = ''Mount''),
      issubclass = (\<lambda>cls superclass. cls = superclass \<or> superclass = ''Unit''),
      dependencies = (\<lambda>unit. if unit = 2 then [(''Daemon'', 3)] else []),
      dependency_unit = fst,
      dependency_get = (\<lambda>dependency unit. snd dependency)\<rparr>"

definition daemon_assembly :: "(nat, int) assembly" where
  "daemon_assembly = init\<lparr>cache := [(''daemon'', 1), (''server'', 2)]\<rparr>"

text \<open>A configuration mapping with two tokens.\<close>

definition two_tokens :: "int dict" where
  "two_tokens = [(''a'', Dict [(''x'', Atom 1)]), (''b'', Atom 7)]"

text \<open>
  Instantiators: one returns instance 7, one raises at once, one acquires the unit
  \<^verbatim>\<open>dep\<close> from the assembly, as a unit's constructor does for a dependency, and then
  raises.
\<close>

definition make_seven :: "(unit, nat, int, unit) instantiator" where
  "make_seven arguments s = (Inr 7, s)"

definition fail_now :: "(unit, nat, int, unit) instantiator" where
  "fail_now arguments s = (Inl (Raised ()), s)"

definition dependency_then_fail :: "(unit, nat, int, unit) instantiator" where
  "dependency_then_fail arguments s =
     (case acquire ''dep'' make_seven [] s of
        (Inl e, s1) \<Rightarrow> (Inl e, s1)
      | (Inr dependency, s1) \<Rightarrow> (Inl (Raised ()), s1))"

text \<open>Calls made on an assembly later on, a unit class and an import function.\<close>

definition later_calls :: "(unit, nat, int, unit) call list" where
  "later_calls =
     [Configure only_a two_tokens,
      Acquire ''dep'' make_seven [],
      GetConfiguration only_a ''a'',
      Acquire ''broken'' fail_now []]"

definition no_import :: "string \<Rightarrow> unit error + (unit, nat, int, unit) unit_class" where
  "no_import name = Inl (Raised ())"

definition broken_class :: "(unit, nat, int, unit) unit_class" where
  "broken_class = \<lparr>identity = ''k'', construct = fail_now\<rparr>"

section \<open>The current-assembly context\<close>

text \<open>
  C9. \<^verbatim>\<open>__enter__\<close> promotes the assembly to the thread's current assembly and
  returns \<^verbatim>\<open>None\<close>, not the assembly: in \<^verbatim>\<open>with a as x:\<close> the body runs with
  \<open>x\<close> bound to \<^verbatim>\<open>None\<close>.
\<close>

theorem enter_returns_None:
  "fst (enter a c) = None
   \<and> current (snd (enter a c)) = a
   \<and> with_assembly a body c =
       (case body None (snd (promote a c)) of (r, c2) \<Rightarrow> (r, snd (demote a c2)))"
  by (simp add: with_assembly_def enter_def exit_def promote_def demote_def current_def
        split: prod.splits)

text \<open>
  C4, as stated, fails: with assembly 2 promoted, promoting assembly 1 and demoting it
  again leaves the slot empty, so \<^verbatim>\<open>current()\<close> is the standard assembly 0 and not
  the previously promoted assembly 2. The slot is a single cell, not a stack.
\<close>

theorem promote_demote_counterexample:
  "current (snd (promote 1 nested_locals)) = 1
   \<and> current (snd (demote 1 (snd (promote 1 nested_locals)))) = 0
   \<and> current nested_locals = 2
   \<and> snd (demote 1 (snd (promote 1 nested_locals))) \<noteq> nested_locals"
  by (simp add: nested_locals_def promote_def demote_def current_def)

text \<open>
  C4, amended. After \<^verbatim>\<open>a.promote()\<close>, \<^verbatim>\<open>current()\<close> is \<open>a\<close>. After the matching
  \<^verbatim>\<open>demote()\<close> the slot is empty and \<^verbatim>\<open>current()\<close> is the standard assembly; the
  state before \<^verbatim>\<open>promote()\<close> is restored exactly when no assembly was promoted
  before. A \<^verbatim>\<open>with\<close> block returns or raises what its body does and runs
  \<^verbatim>\<open>demote\<close> on both paths: if the body leaves \<open>a\<close> in the slot, the slot is empty
  afterwards and \<^verbatim>\<open>current()\<close> is the standard assembly.
\<close>

theorem promote_demote_round_trip:
  "current (snd (promote a c)) = a
   \<and> local_assembly (snd (demote a (snd (promote a c)))) = None
   \<and> current (snd (demote a (snd (promote a c)))) = standard c
   \<and> ((snd (demote a (snd (promote a c))) = c) = (local_assembly c = None))
   \<and> (\<forall>body r c2. body None (snd (promote a c)) = (r, c2) \<longrightarrow>
         with_assembly a body c = (r, snd (demote a c2))
         \<and> (local_assembly c2 = Some a \<longrightarrow>
              local_assembly (snd (with_assembly a body c)) = None
              \<and> current (snd (with_assembly a body c)) = standard c2))"
proof -
  have slot: "((snd (demote a (snd (promote a c))) = c) = (local_assembly c = None))"
  proof
    assume "snd (demote a (snd (promote a c))) = c"
    then have "local_assembly (snd (demote a (snd (promote a c)))) = local_assembly c"
      by simp
    then show "local_assembly c = None"
      by (simp add: promote_def demote_def)
  next
    assume "local_assembly c = None"
    then show "snd (demote a (snd (promote a c))) = c"
      by (simp add: promote_def demote_def)
  qed
  have block: "with_assembly a body c = (r, snd (demote a c2))"
    if "body None (snd (promote a c)) = (r, c2)" for body :: "'a option \<Rightarrow> 'a locals \<Rightarrow> ('b error + 'c) \<times> 'a locals" and r c2
    using that by (simp add: with_assembly_def enter_def exit_def promote_def demote_def)
  show ?thesis
    using slot block
    by (simp add: promote_def demote_def current_def)
qed

theorem promote_demote_round_trip_witness:
  "current (snd (promote 1 fresh_locals)) = 1
   \<and> snd (demote 1 (snd (promote 1 fresh_locals))) = fresh_locals
   \<and> with_assembly 1 raising_body fresh_locals = (Inl (Raised ()), fresh_locals)"
proof -
  have body: "raising_body None (snd (promote 1 fresh_locals))
                = (Inl (Raised ()), snd (promote 1 fresh_locals))"
    by (simp add: raising_body_def)
  have none: "local_assembly fresh_locals = None"
    by (simp add: fresh_locals_def)
  note round_trip = promote_demote_round_trip [of 1 fresh_locals]
  from round_trip have promoted: "current (snd (promote 1 fresh_locals)) = 1"
    by blast
  from round_trip none have restored: "snd (demote 1 (snd (promote 1 fresh_locals))) = fresh_locals"
    by blast
  from round_trip body
  have "with_assembly 1 raising_body fresh_locals
          = (Inl (Raised ()), snd (demote 1 (snd (promote 1 fresh_locals))))"
    by blast
  with promoted restored show ?thesis
    by simp
qed

section \<open>acquire and instantiate\<close>

text \<open>
  A key that is cached is returned as it is: the assembly is left unchanged, whatever
  the instantiator, which is therefore not called.
\<close>

lemma acquire_hit:
  "map_of (cache t) key = Some instance \<Longrightarrow> acquire key f arguments t = (Inr instance, t)"
  by (simp add: acquire_def guard_acquire_def finally_release_def Let_def)

text \<open>
  No method removes or replaces a cache entry, provided the callbacks it runs do not.
\<close>

lemma cache_finally_release: "cache (snd (finally_release rs)) = cache (snd rs)"
  by (cases rs) (simp add: finally_release_def)

lemma acquire_keeps:
  assumes "keeps_cache f" and "map_of (cache s) key' = Some instance"
  shows "map_of (cache (snd (acquire key f arguments s))) key' = Some instance"
proof (cases "map_of (cache s) key")
  case (Some i)
  then have "acquire key f arguments s = (Inr i, s)"
    by (rule acquire_hit)
  with assms(2) show ?thesis by simp
next
  case None
  with assms(2) have ne: "key' \<noteq> key" by auto
  let ?s0 = "guard_acquire s"
  have c0: "cache ?s0 = cache s" by (simp add: guard_acquire_def)
  obtain r s1 where f: "f arguments ?s0 = (r, s1)" by (cases "f arguments ?s0")
  from assms c0 have "map_of (cache (snd (f arguments ?s0))) key' = Some instance"
    unfolding keeps_cache_def by auto
  with f have k1: "map_of (cache s1) key' = Some instance" by simp
  show ?thesis
  proof (cases r)
    case (Inl e)
    with None f c0 k1 show ?thesis
      by (simp add: acquire_def Let_def cache_finally_release)
  next
    case (Inr i)
    with None f c0 k1 ne show ?thesis
      by (simp add: acquire_def Let_def cache_finally_release write_cache_def update_conv')
  qed
qed

lemma instantiate_keeps:
  assumes "call_keeps_cache (Instantiate import_object unit)"
    and "map_of (cache s) key' = Some instance"
  shows "map_of (cache (snd (instantiate import_object unit s))) key' = Some instance"
proof (cases unit)
  case (ByName name)
  show ?thesis
  proof (cases "import_object name")
    case (Inl e)
    with ByName assms(2) show ?thesis by (simp add: instantiate_def)
  next
    case (Inr cls)
    with ByName assms(1) have "keeps_cache (construct cls)" by simp
    from acquire_keeps [OF this assms(2)] ByName Inr show ?thesis
      by (simp add: instantiate_def)
  qed
next
  case (ByClass cls)
  with assms(1) have "keeps_cache (construct cls)" by simp
  from acquire_keeps [OF this assms(2)] ByClass show ?thesis
    by (simp add: instantiate_def)
qed

lemma cache_configure_items: "cache (snd (configure_items schemas config s)) = cache s"
  by (induction config arbitrary: s)
     (auto simp: write_configuration_def write_pending_def split: option.splits sum.splits)

lemma cache_resolve_pending: "cache (snd (resolve_pending schemas keys token s)) = cache s"
proof (induction keys arbitrary: token s)
  case Nil
  then show ?case by simp
next
  case (Cons k keys)
  show ?case
    by (auto simp: Cons.IH Let_def write_configuration_def write_pending_def
          split: option.splits sum.splits)
qed

lemma cache_get_configuration: "cache (snd (get_configuration schemas token s)) = cache s"
proof (cases "map_of (configuration s) token")
  case None
  let ?r = "finally_release (resolve_pending schemas (map fst (pending (guard_acquire s))) token
              (guard_acquire s))"
  have "cache (snd ?r) = cache s"
    by (simp add: cache_finally_release cache_resolve_pending guard_acquire_def)
  with None show ?thesis
    by (cases ?r) (auto simp: get_configuration_def Let_def split: sum.splits option.splits)
next
  case (Some d)
  then show ?thesis by (simp add: get_configuration_def)
qed

lemma perform_keeps:
  assumes "call_keeps_cache c" and "map_of (cache s) key = Some instance"
  shows "map_of (cache (perform c s)) key = Some instance"
proof (cases c)
  case (Acquire k f a)
  with assms show ?thesis by (simp add: acquire_keeps)
next
  case (Instantiate imp unit)
  with assms show ?thesis by (simp add: instantiate_keeps)
next
  case (Configure schemas config)
  with assms(2) show ?thesis by (simp add: configure_def cache_configure_items)
next
  case (GetConfiguration schemas token)
  with assms(2) show ?thesis by (simp add: cache_get_configuration)
qed

lemma run_keeps:
  "list_all call_keeps_cache calls \<Longrightarrow> map_of (cache s) key = Some instance \<Longrightarrow>
   map_of (cache (run calls s)) key = Some instance"
  unfolding run_def
  by (induction calls arbitrary: s) (simp_all add: perform_keeps)

text \<open>
  C1. The first successful \<^verbatim>\<open>acquire(k, instantiator, arguments)\<close> (a cache miss, the
  instantiator returns an instance and leaves the lock as it found it) returns the
  instance and stores it in the cache under \<open>k\<close>. After any later calls on the
  assembly the entry is still there, and every \<^verbatim>\<open>acquire\<close> and \<^verbatim>\<open>instantiate\<close> for
  \<open>k\<close> returns that instance and leaves the assembly as it is, whatever instantiator it
  is given: the instantiator is not invoked again. "Later" is after that first call has
  returned; what the instantiator does to the assembly while it runs is part of \<open>s1\<close>.
\<close>

theorem acquire_at_most_once:
  fixes instantiator :: "('x, 'u, 'v, 'e) instantiator"
    and calls :: "('x, 'u, 'v, 'e) call list"
  assumes miss: "map_of (cache s) key = None"
    and made: "instantiator arguments (guard_acquire s) = (Inr inst, s1)"
    and held: "guard s1 = Suc (guard s)"
    and later: "list_all call_keeps_cache calls"
  shows "\<exists>s'. acquire key instantiator arguments s = (Inr inst, s')
           \<and> cache s' = AList.update key inst (cache s1)
           \<and> map_of (cache s') key = Some inst
           \<and> map_of (cache (run calls s')) key = Some inst
           \<and> (\<forall>(f :: ('x, 'u, 'v, 'e) instantiator) a.
                 acquire key f a (run calls s') = (Inr inst, run calls s'))
           \<and> (\<forall>import_object (cls :: ('x, 'u, 'v, 'e) unit_class). identity cls = key \<longrightarrow>
                 instantiate import_object (ByClass cls) (run calls s')
                   = (Inr inst, run calls s'))
           \<and> (\<forall>import_object name (cls :: ('x, 'u, 'v, 'e) unit_class).
                 import_object name = Inr cls \<and> identity cls = key \<longrightarrow>
                 instantiate import_object (ByName name) (run calls s')
                   = (Inr inst, run calls s'))"
proof -
  define s' where "s' = (write_cache (AList.update key inst (cache s1)) s1)\<lparr>guard := guard s\<rparr>"
  from miss made held have r: "acquire key instantiator arguments s = (Inr inst, s')"
    by (simp add: acquire_def Let_def guard_acquire_def finally_release_def write_cache_def s'_def)
  have c: "cache s' = AList.update key inst (cache s1)"
    by (simp add: s'_def write_cache_def)
  then have k: "map_of (cache s') key = Some inst"
    by (simp add: update_conv')
  from run_keeps [OF later k] have t: "map_of (cache (run calls s')) key = Some inst" .
  have again: "acquire key f a (run calls s') = (Inr inst, run calls s')"
    for f :: "('x, 'u, 'v, 'e) instantiator" and a
    using t by (rule acquire_hit)
  have by_class: "instantiate import_object (ByClass cls) (run calls s')
                   = (Inr inst, run calls s')"
    if "identity cls = key" for import_object and cls :: "('x, 'u, 'v, 'e) unit_class"
    using that again by (simp add: instantiate_def)
  have by_name: "instantiate import_object (ByName name) (run calls s')
                   = (Inr inst, run calls s')"
    if "import_object name = Inr cls \<and> identity cls = key"
    for import_object name and cls :: "('x, 'u, 'v, 'e) unit_class"
    using that again by (simp add: instantiate_def)
  from r c k t again by_class by_name show ?thesis
    by (intro exI [of _ s'] conjI allI impI) simp_all
qed

theorem acquire_at_most_once_witness:
  "map_of (cache (init :: (nat, int) assembly)) ''k'' = None
   \<and> make_seven [] (guard_acquire init) = (Inr 7, guard_acquire init)
   \<and> guard (guard_acquire (init :: (nat, int) assembly)) = Suc (guard (init :: (nat, int) assembly))
   \<and> list_all call_keeps_cache later_calls
   \<and> identity broken_class = ''k''
   \<and> (\<exists>s'. acquire ''k'' make_seven [] init = (Inr 7, s')
          \<and> map_of (cache (run later_calls s')) ''k'' = Some 7
          \<and> acquire ''k'' fail_now [] (run later_calls s') = (Inr 7, run later_calls s')
          \<and> instantiate no_import (ByClass broken_class) (run later_calls s')
               = (Inr 7, run later_calls s'))"
proof -
  have miss: "map_of (cache (init :: (nat, int) assembly)) ''k'' = None"
    by (simp add: init_def)
  have made: "make_seven [] (guard_acquire init) = (Inr 7, guard_acquire init)"
    by (simp add: make_seven_def)
  have held: "guard (guard_acquire (init :: (nat, int) assembly)) = Suc (guard (init :: (nat, int) assembly))"
    by (simp add: guard_acquire_def)
  have later: "list_all call_keeps_cache later_calls"
    by (simp add: later_calls_def keeps_cache_def make_seven_def fail_now_def)
  have cls: "identity broken_class = ''k''"
    by (simp add: broken_class_def)
  from acquire_at_most_once [where s = "init :: (nat, int) assembly" and key = "''k''"
      and instantiator = make_seven and arguments = "[]" and inst = 7
      and ?s1.0 = "guard_acquire init" and calls = later_calls, OF miss made held later]
  obtain s' where r: "acquire ''k'' make_seven [] init = (Inr 7, s')"
    and t: "map_of (cache (run later_calls s')) ''k'' = Some 7"
    and again: "\<forall>(f :: (unit, nat, int, unit) instantiator) a.
                  acquire ''k'' f a (run later_calls s') = (Inr 7, run later_calls s')"
    and by_class: "\<forall>import_object (cls :: (unit, nat, int, unit) unit_class). identity cls = ''k'' \<longrightarrow>
                 instantiate import_object (ByClass cls) (run later_calls s')
                   = (Inr 7, run later_calls s')"
    by (elim exE conjE)
  from again have a: "acquire ''k'' fail_now [] (run later_calls s') = (Inr 7, run later_calls s')"
    by (elim allE)
  from by_class cls
  have b: "instantiate no_import (ByClass broken_class) (run later_calls s')
             = (Inr 7, run later_calls s')"
    by (elim allE impE)
  from r t a b
  have "\<exists>s'. acquire ''k'' make_seven [] init = (Inr 7, s')
          \<and> map_of (cache (run later_calls s')) ''k'' = Some 7
          \<and> acquire ''k'' fail_now [] (run later_calls s') = (Inr 7, run later_calls s')
          \<and> instantiate no_import (ByClass broken_class) (run later_calls s')
               = (Inr 7, run later_calls s')"
    by (intro exI [of _ s'] conjI)
  with miss made held later cls show ?thesis
    by (intro conjI)
qed


text \<open>
  C3, as stated, fails: an instantiator that acquires a dependency from the assembly and
  then raises leaves the dependency in the cache, so the cache is not unchanged.
\<close>

theorem acquire_failure_counterexample:
  "acquire ''k'' dependency_then_fail [] init
     = (Inl (Raised ()),
        \<lparr>cache = [(''dep'', 7)], configuration = [], pending = [], guard = 0,
         journal = [(Cache, 2)]\<rparr>)
   \<and> cache (init :: (nat, int) assembly) = []"
  by (simp add: acquire_def dependency_then_fail_def make_seven_def init_def Let_def
        guard_acquire_def finally_release_def write_cache_def)

text \<open>
  C3, amended. If the instantiator raises, the exception reaches the caller unchanged,
  the lock is released, and \<^verbatim>\<open>acquire\<close> itself writes nothing: the assembly is as the
  instantiator left it, so the cache is unchanged when the instantiator did not touch it.
  With \<open>k\<close> still absent, a subsequent \<^verbatim>\<open>acquire\<close> for \<open>k\<close> calls its instantiator
  again.
\<close>

theorem acquire_failure:
  fixes instantiator :: "('x, 'u, 'v, 'e) instantiator"
  assumes miss: "map_of (cache s) key = None"
    and raised: "instantiator arguments (guard_acquire s) = (Inl e, s1)"
    and held: "guard s1 = Suc (guard s)"
  shows "acquire key instantiator arguments s = (Inl e, s1\<lparr>guard := guard s\<rparr>)
         \<and> (cache s1 = cache s \<longrightarrow>
              cache (snd (acquire key instantiator arguments s)) = cache s)
         \<and> (map_of (cache s1) key = None \<longrightarrow>
              (\<forall>(f :: ('x, 'u, 'v, 'e) instantiator) a.
                 acquire key f a (s1\<lparr>guard := guard s\<rparr>) =
                   finally_release
                     (case f a (guard_acquire (s1\<lparr>guard := guard s\<rparr>)) of
                        (Inl e', s2) \<Rightarrow> (Inl e', s2)
                      | (Inr instance, s2) \<Rightarrow>
                          (Inr instance, write_cache (AList.update key instance (cache s2)) s2))))"
proof -
  from miss raised held
  have r: "acquire key instantiator arguments s = (Inl e, s1\<lparr>guard := guard s\<rparr>)"
    by (simp add: acquire_def Let_def guard_acquire_def finally_release_def)
  have retry: "acquire key f a (s1\<lparr>guard := guard s\<rparr>) =
                   finally_release
                     (case f a (guard_acquire (s1\<lparr>guard := guard s\<rparr>)) of
                        (Inl e', s2) \<Rightarrow> (Inl e', s2)
                      | (Inr instance, s2) \<Rightarrow>
                          (Inr instance, write_cache (AList.update key instance (cache s2)) s2))"
    if "map_of (cache s1) key = None" for f :: "('x, 'u, 'v, 'e) instantiator" and a
    using that by (simp add: acquire_def Let_def guard_acquire_def)
  from r retry show ?thesis
    by simp
qed

theorem acquire_failure_witness:
  "map_of (cache (init :: (nat, int) assembly)) ''k'' = None
   \<and> fail_now [] (guard_acquire init) = (Inl (Raised ()), guard_acquire init)
   \<and> guard (guard_acquire (init :: (nat, int) assembly)) = Suc (guard (init :: (nat, int) assembly))
   \<and> acquire ''k'' fail_now [] init = (Inl (Raised ()), init)
   \<and> cache (snd (acquire ''k'' fail_now [] init)) = cache (init :: (nat, int) assembly)
   \<and> acquire ''k'' make_seven [] init
       = (Inr 7, \<lparr>cache = [(''k'', 7)], configuration = [], pending = [], guard = 0,
                  journal = [(Cache, 1)]\<rparr>)"
proof -
  have miss: "map_of (cache (init :: (nat, int) assembly)) ''k'' = None"
    by (simp add: init_def)
  have raised: "fail_now [] (guard_acquire init) = (Inl (Raised ()), guard_acquire init)"
    by (simp add: fail_now_def)
  have held: "guard (guard_acquire (init :: (nat, int) assembly)) = Suc (guard (init :: (nat, int) assembly))"
    by (simp add: guard_acquire_def)
  have restored: "(guard_acquire (init :: (nat, int) assembly))\<lparr>guard := guard (init :: (nat, int) assembly)\<rparr> = init"
    by (simp add: guard_acquire_def init_def)
  have same: "cache (guard_acquire (init :: (nat, int) assembly)) = cache (init :: (nat, int) assembly)"
    by (simp add: guard_acquire_def)
  have miss1: "map_of (cache (guard_acquire (init :: (nat, int) assembly))) ''k'' = None"
    by (simp add: guard_acquire_def init_def)
  note at = acquire_failure [where s = "init :: (nat, int) assembly" and key = "''k''"
      and instantiator = fail_now and arguments = "[]" and e = "Raised ()"
      and ?s1.0 = "guard_acquire init", OF miss raised held]
  from at [THEN conjunct1] restored have 1: "acquire ''k'' fail_now [] init = (Inl (Raised ()), init)"
    by simp
  from at [THEN conjunct2, THEN conjunct1, rule_format, OF same]
  have 2: "cache (snd (acquire ''k'' fail_now [] init)) = cache (init :: (nat, int) assembly)" .
  from at [THEN conjunct2, THEN conjunct2, THEN mp, OF miss1] have "\<forall>(f :: (unit, nat, int, unit) instantiator) a.
                 acquire ''k'' f a ((guard_acquire init)\<lparr>guard := guard (init :: (nat, int) assembly)\<rparr>) =
                   finally_release
                     (case f a (guard_acquire ((guard_acquire init)\<lparr>guard := guard (init :: (nat, int) assembly)\<rparr>)) of
                        (Inl e', s2) \<Rightarrow> (Inl e', s2)
                      | (Inr instance, s2) \<Rightarrow>
                          (Inr instance, write_cache (AList.update ''k'' instance (cache s2)) s2))"
    .
  then have "acquire ''k'' make_seven [] ((guard_acquire init)\<lparr>guard := guard (init :: (nat, int) assembly)\<rparr>) =
                   finally_release
                     (case make_seven [] (guard_acquire ((guard_acquire init)\<lparr>guard := guard (init :: (nat, int) assembly)\<rparr>)) of
                        (Inl e', s2) \<Rightarrow> (Inl e', s2)
                      | (Inr instance, s2) \<Rightarrow>
                          (Inr instance, write_cache (AList.update ''k'' instance (cache s2)) s2))"
    by (elim allE)
  then have 3: "acquire ''k'' make_seven [] init
       = (Inr 7, \<lparr>cache = [(''k'', 7)], configuration = [], pending = [], guard = 0,
                  journal = [(Cache, 1)]\<rparr>)"
    unfolding restored
    by (simp add: make_seven_def finally_release_def guard_acquire_def write_cache_def init_def)
  from miss raised held 1 2 3 show ?thesis
    by (intro conjI)
qed


section \<open>filter_configuration\<close>

text \<open>
  On a dictionary (distinct keys) the loop of \<^verbatim>\<open>filter_configuration\<close> keeps the
  entries whose token has the prefix, in their order.
\<close>

lemma update_fresh_key: "k \<notin> fst ` set al \<Longrightarrow> AList.update k v al = al @ [(k, v)]"
  by (induction al) auto

lemma filter_items_filter:
  "distinct (map fst al) \<Longrightarrow> fst ` set al \<inter> fst ` set acc = {} \<Longrightarrow>
   filter_items p al acc = acc @ filter (\<lambda>(token, data). startswith token p) al"
proof (induction al arbitrary: acc)
  case Nil
  then show ?case by simp
next
  case (Cons x al)
  obtain token data where x: "x = (token, data)" by (cases x)
  from Cons.prems x have fresh: "token \<notin> fst ` set acc" and d: "distinct (map fst al)"
    and tl: "fst ` set al \<inter> fst ` set acc = {}" and nt: "token \<notin> fst ` set al"
    by auto
  show ?case
  proof (cases "startswith token p")
    case True
    from fresh have u: "AList.update token data acc = acc @ [(token, data)]"
      by (rule update_fresh_key)
    from tl nt have "fst ` set al \<inter> fst ` set (acc @ [(token, data)]) = {}"
      by auto
    with Cons.IH [OF d] have "filter_items p al (acc @ [(token, data)])
        = (acc @ [(token, data)]) @ filter (\<lambda>(token, data). startswith token p) al"
      by blast
    with True u x show ?thesis by simp
  next
    case False
    with Cons.IH [OF d tl] x show ?thesis by simp
  qed
qed

lemma startswith_iff: "startswith token p = (\<exists>rest. token = p @ rest)"
  unfolding startswith_def
  by (metis append_eq_conv_conj append_take_drop_id)

lemma map_of_filter_startswith:
  "map_of (filter (\<lambda>(token, data). startswith token p) al) token =
     (if startswith token p then map_of al token else None)"
  by (induction al) auto

text \<open>
  C10. \<^verbatim>\<open>filter_configuration('')\<close> raises \<^verbatim>\<open>IndexError\<close>: it reads
  \<^verbatim>\<open>prefix[-1]\<close> before it normalizes. For every non-empty prefix the normalization
  is defined (the prefix itself when it ends with a colon, else the prefix with a colon
  appended) and the call returns a mapping.
\<close>

theorem filter_configuration_empty_prefix:
  "(filter_configuration [] s :: 'e error + 'v dict) = Inl IndexError
   \<and> (prefix \<noteq> [] \<longrightarrow>
        (normalize_prefix prefix :: 'e error + string) = Inr (with_separator prefix)
        \<and> (\<exists>filtered. (filter_configuration prefix s :: 'e error + 'v dict) = Inr filtered))"
  by (cases prefix) (simp_all add: filter_configuration_def normalize_prefix_def)

theorem filter_configuration_empty_prefix_witness:
  "''mesh'' \<noteq> []
   \<and> (normalize_prefix ''mesh'' :: unit error + string) = Inr ''mesh:''
   \<and> (\<exists>filtered. (filter_configuration ''mesh'' mesh_assembly :: unit error + int dict) = Inr filtered)"
proof -
  have "(filter_configuration [] mesh_assembly :: unit error + int dict) = Inl IndexError
     \<and> (''mesh'' \<noteq> [] \<longrightarrow>
          (normalize_prefix ''mesh'' :: unit error + string) = Inr (with_separator ''mesh'')
          \<and> (\<exists>filtered. (filter_configuration ''mesh'' mesh_assembly :: unit error + int dict) = Inr filtered))"
    by (rule filter_configuration_empty_prefix)
  then show ?thesis
    by (simp add: with_separator_def)
qed

text \<open>
  C7, as stated for every prefix string, fails at the empty string: nothing is
  normalized and no entries are returned, the call raises \<^verbatim>\<open>IndexError\<close>.
\<close>

theorem filter_configuration_counterexample:
  "(filter_configuration [] mesh_assembly :: unit error + int dict) = Inl IndexError"
  by (simp add: filter_configuration_def normalize_prefix_def)

text \<open>
  C7, amended: for every non-empty prefix, \<^verbatim>\<open>filter_configuration\<close> normalizes the
  prefix to end with a colon and returns exactly the resolved entries whose token starts
  with the normalized prefix: a token is bound in the result, to the same data, if and
  only if it is bound in \<^verbatim>\<open>configuration\<close> and starts with that prefix.
  \<^verbatim>\<open>filter_configuration('mesh')\<close> keeps the tokens that start with \<^verbatim>\<open>mesh:\<close>
  only.
\<close>

theorem filter_configuration_prefix:
  assumes "prefix \<noteq> []" and "distinct (map fst (configuration s))"
  shows "\<exists>filtered.
           (filter_configuration prefix s :: 'e error + 'v dict) = Inr filtered
           \<and> filtered = filter (\<lambda>(token, data). startswith token (with_separator prefix))
                  (configuration s)
           \<and> (\<forall>token data. (map_of filtered token = Some data) =
                 ((\<exists>rest. token = with_separator prefix @ rest)
                  \<and> map_of (configuration s) token = Some data))"
proof -
  let ?p = "with_separator prefix"
  let ?f = "filter (\<lambda>(token, data). startswith token ?p) (configuration s)"
  from assms(1) have n: "(normalize_prefix prefix :: 'e error + string) = Inr ?p"
    by (cases prefix) (simp_all add: normalize_prefix_def)
  from assms(2) have "filter_items ?p (configuration s) [] = [] @ ?f"
    by (intro filter_items_filter) simp_all
  with n have r: "(filter_configuration prefix s :: 'e error + 'v dict) = Inr ?f"
    by (simp add: filter_configuration_def)
  have "(map_of ?f token = Some data) =
          ((\<exists>rest. token = ?p @ rest) \<and> map_of (configuration s) token = Some data)" for token data
    unfolding map_of_filter_startswith
    by (simp add: startswith_iff)
  with r show ?thesis
    by simp
qed

theorem filter_configuration_prefix_witness:
  "''mesh'' \<noteq> [] \<and> distinct (map fst (configuration mesh_assembly))
   \<and> (filter_configuration ''mesh'' mesh_assembly :: unit error + int dict)
        = Inr [(''mesh:docket'', Dict [(''url'', Atom 1)]), (''mesh:'', Atom 4)]"
proof -
  have ne: "''mesh'' \<noteq> []" by simp
  have d: "distinct (map fst (configuration mesh_assembly))"
    by (simp add: mesh_assembly_def init_def)
  from filter_configuration_prefix [OF ne d]
  have "(filter_configuration ''mesh'' mesh_assembly :: unit error + int dict)
          = Inr (filter (\<lambda>(token, data). startswith token (with_separator ''mesh''))
                  (configuration mesh_assembly))"
    by blast
  with ne d show ?thesis
    by (simp add: with_separator_def startswith_def mesh_assembly_def init_def)
qed

section \<open>configure and the recursive merge\<close>

text \<open>
  One step of the merge stores the merged value under the key; on an addition with
  distinct keys the result is described key by key.
\<close>

lemma recursive_merge_step:
  "recursive_merge original ((key, v) # addition) =
     recursive_merge (AList.update key (merge_value (map_of original key) v) original) addition"
  by (cases v; cases "map_of original key")
     (simp_all add: merge_value_def split: val.splits)

lemma recursive_merge_lookup:
  "distinct (map fst addition) \<Longrightarrow>
   map_of (recursive_merge original addition) k =
     (case map_of addition k of
        None \<Rightarrow> map_of original k
      | Some v \<Rightarrow> Some (merge_value (map_of original k) v))"
proof (induction addition arbitrary: original)
  case Nil
  then show ?case by simp
next
  case (Cons x addition)
  obtain key v where x: "x = (key, v)" by (cases x)
  from Cons.prems x have d: "distinct (map fst addition)" and fresh: "key \<notin> fst ` set addition"
    by auto
  from fresh have none: "map_of addition key = None"
    by (simp add: map_of_eq_None_iff)
  show ?case
    unfolding x recursive_merge_step Cons.IH [OF d]
    using none by (cases "k = key") (simp_all add: update_conv' split: option.splits)
qed

lemma recursive_merge_single:
  "map_of (recursive_merge original [(key, v)]) k =
     (if k = key then Some (merge_value (map_of original key) v) else map_of original k)"
  by (simp add: recursive_merge_step update_conv')

lemma configure_items_entries:
  assumes "distinct (map fst config)" and "validates schemas config"
  shows "\<exists>s'. configure_items schemas config s = (Inr (), s')
     \<and> cache s' = cache s \<and> guard s' = guard s
     \<and> (\<forall>token. map_of (configuration s') token
                   = resolved_entry schemas config (configuration s) token)
     \<and> (\<forall>token. map_of (pending s') token
                   = pending_entry schemas config (pending s) token)"
  using assms
proof (induction config arbitrary: s)
  case Nil
  then show ?case by (simp add: resolved_entry_def pending_entry_def)
next
  case (Cons x config)
  obtain token data where x: "x = (token, data)" by (cases x)
  from Cons.prems x have d: "distinct (map fst config)" and v: "validates schemas config"
    and fresh: "map_of config token = None"
    by (auto simp: validates_def map_of_eq_None_iff)
  show ?case
  proof (cases "schemas token")
    case None
    let ?s1 = "write_pending (recursive_merge (pending s) [(token, data)]) s"
    from Cons.IH [OF d v, of ?s1] obtain s' where
      run: "configure_items schemas config ?s1 = (Inr (), s')"
      and frame: "cache s' = cache ?s1" "guard s' = guard ?s1"
      and conf: "\<And>t. map_of (configuration s') t
                   = resolved_entry schemas config (configuration ?s1) t"
      and pend: "\<And>t. map_of (pending s') t = pending_entry schemas config (pending ?s1) t"
      by blast
    have c1: "configuration ?s1 = configuration s" "cache ?s1 = cache s" "guard ?s1 = guard s"
      "pending ?s1 = recursive_merge (pending s) [(token, data)]"
      by (simp_all add: write_pending_def)
    from run None x have r: "configure_items schemas (x # config) s = (Inr (), s')"
      by simp
    have a: "resolved_entry schemas config (configuration ?s1) t
               = resolved_entry schemas (x # config) (configuration s) t" for t
      using fresh None unfolding c1 x
      by (cases "t = token") (simp_all add: resolved_entry_def split: option.splits)
    have b: "pending_entry schemas config (pending ?s1) t
               = pending_entry schemas (x # config) (pending s) t" for t
      using fresh None unfolding c1 x
      by (cases "t = token")
         (simp_all add: pending_entry_def recursive_merge_single split: option.splits)
    from r frame c1 conf pend a b show ?thesis
      by simp
  next
    case (Some schema)
    from Cons.prems(2) x Some obtain data' where ok: "schema data = Inr data'"
      by (cases "schema data") (auto simp: validates_def)
    let ?s1 = "write_configuration (recursive_merge (configuration s) [(token, data')]) s"
    from Cons.IH [OF d v, of ?s1] obtain s' where
      run: "configure_items schemas config ?s1 = (Inr (), s')"
      and frame: "cache s' = cache ?s1" "guard s' = guard ?s1"
      and conf: "\<And>t. map_of (configuration s') t
                   = resolved_entry schemas config (configuration ?s1) t"
      and pend: "\<And>t. map_of (pending s') t = pending_entry schemas config (pending ?s1) t"
      by blast
    have c1: "pending ?s1 = pending s" "cache ?s1 = cache s" "guard ?s1 = guard s"
      "configuration ?s1 = recursive_merge (configuration s) [(token, data')]"
      by (simp_all add: write_configuration_def)
    from run Some ok x have r: "configure_items schemas (x # config) s = (Inr (), s')"
      by simp
    have a: "resolved_entry schemas config (configuration ?s1) t
               = resolved_entry schemas (x # config) (configuration s) t" for t
      using fresh Some ok unfolding c1 x
      by (cases "t = token")
         (simp_all add: resolved_entry_def recursive_merge_single split: option.splits sum.splits)
    have b: "pending_entry schemas config (pending ?s1) t
               = pending_entry schemas (x # config) (pending s) t" for t
      using fresh Some unfolding c1 x
      by (cases "t = token") (simp_all add: pending_entry_def split: option.splits)
    from r frame c1 conf pend a b show ?thesis
      by simp
  qed
qed


lemma merge_value_single:
  "\<exists>m. merge_value old (Dict [(k, Atom v)]) = Dict m
       \<and> map_of m k = Some (Atom v)
       \<and> (\<forall>k'. k' \<noteq> k \<longrightarrow>
             map_of m k' = (case old of Some (Dict source) \<Rightarrow> map_of source k' | _ \<Rightarrow> None))"
proof (cases old)
  case None
  then show ?thesis by (simp add: merge_value_def)
next
  case (Some w)
  then show ?thesis
    by (cases w) (simp_all add: merge_value_def update_conv')
qed

lemma configure_single:
  "schemas token = Some schema \<Longrightarrow> schema data = Inr data' \<Longrightarrow>
   configure schemas [(token, data)] s
     = (Inr (), write_configuration (recursive_merge (configuration s) [(token, data')]) s)"
  by (simp add: configure_def)

lemma configure_twice:
  assumes a: "schemas ''a'' = Some schema"
    and x: "schema (Dict [(''x'', Atom vx)]) = Inr (Dict [(''x'', Atom vx)])"
    and y: "schema (Dict [(''y'', Atom vy)]) = Inr (Dict [(''y'', Atom vy)])"
  shows "\<exists>s1 s2 m.
           configure schemas [(''a'', Dict [(''x'', Atom vx)])] s = (Inr (), s1)
           \<and> configure schemas [(''a'', Dict [(''y'', Atom vy)])] s1 = (Inr (), s2)
           \<and> map_of (configuration s2) ''a'' = Some (Dict m)
           \<and> map_of m ''x'' = Some (Atom vx) \<and> map_of m ''y'' = Some (Atom vy)"
proof -
  define c1 where "c1 = recursive_merge (configuration s) [(''a'', Dict [(''x'', Atom vx)])]"
  define s1 where "s1 = write_configuration c1 s"
  define c2 where "c2 = recursive_merge c1 [(''a'', Dict [(''y'', Atom vy)])]"
  define s2 where "s2 = write_configuration c2 s1"
  have conf1: "configuration s1 = c1"
    by (simp add: s1_def write_configuration_def)
  have conf2: "configuration s2 = c2"
    by (simp add: s2_def write_configuration_def)
  have r1: "configure schemas [(''a'', Dict [(''x'', Atom vx)])] s = (Inr (), s1)"
    unfolding s1_def c1_def using a x by (rule configure_single)
  have "configure schemas [(''a'', Dict [(''y'', Atom vy)])] s1
          = (Inr (), write_configuration
                       (recursive_merge (configuration s1) [(''a'', Dict [(''y'', Atom vy)])]) s1)"
    using a y by (rule configure_single)
  then have r2: "configure schemas [(''a'', Dict [(''y'', Atom vy)])] s1 = (Inr (), s2)"
    by (simp add: s2_def c2_def conf1)
  from merge_value_single [of "map_of (configuration s) ''a''" "''x''" vx]
  obtain m1 where m1: "merge_value (map_of (configuration s) ''a'') (Dict [(''x'', Atom vx)]) = Dict m1"
    and m1x: "map_of m1 ''x'' = Some (Atom vx)"
    by (elim exE conjE)
  have l1: "map_of c1 ''a'' = Some (Dict m1)"
    by (simp add: c1_def recursive_merge_single m1 del: recursive_merge.simps)
  from merge_value_single [of "Some (Dict m1)" "''y''" vy]
  obtain m2 where m2: "merge_value (Some (Dict m1)) (Dict [(''y'', Atom vy)]) = Dict m2"
    and m2y: "map_of m2 ''y'' = Some (Atom vy)"
    and m2o: "\<forall>k'. k' \<noteq> ''y'' \<longrightarrow> map_of m2 k' = map_of m1 k'"
    by (elim exE conjE) simp
  have l2: "map_of c2 ''a'' = Some (Dict m2)"
    by (simp add: c2_def recursive_merge_single l1 m2 del: recursive_merge.simps)
  from m2o have "map_of m2 ''x'' = map_of m1 ''x''"
    by simp
  with m1x have m2x: "map_of m2 ''x'' = Some (Atom vx)"
    by simp
  from l2 conf2 have l2': "map_of (configuration s2) ''a'' = Some (Dict m2)"
    by simp
  show ?thesis
    by (intro exI [of _ s1] exI [of _ s2] exI [of _ m2] conjI r1 r2 l2' m2x m2y)
qed

text \<open>
  C5. \<^verbatim>\<open>configure\<close>, for a mapping none of whose data is rejected by a schema:
  every token with a registered schema is validated and merged into
  \<^verbatim>\<open>configuration\<close>, every token without one is merged raw into \<^verbatim>\<open>pending\<close>,
  and nothing else changes. The recursive merge combines mappings key by key and
  replaces any other value. With a schema registered for \<^verbatim>\<open>a\<close> that accepts both
  mappings as they are, \<^verbatim>\<open>configure({'a': {'x': vx}})\<close> followed by
  \<^verbatim>\<open>configure({'a': {'y': vy}})\<close> gives a resolved configuration for \<^verbatim>\<open>a\<close> that
  holds both \<^verbatim>\<open>x: vx\<close> and \<^verbatim>\<open>y: vy\<close>, from any assembly.
\<close>

theorem configure_merges:
  "(distinct (map fst config) \<and> validates schemas config \<longrightarrow>
      (\<exists>s'. configure schemas config s = (Inr (), s')
         \<and> cache s' = cache s \<and> guard s' = guard s
         \<and> (\<forall>token. map_of (configuration s') token
                       = resolved_entry schemas config (configuration s) token)
         \<and> (\<forall>token. map_of (pending s') token
                       = pending_entry schemas config (pending s) token)))
   \<and> (distinct (map fst addition) \<longrightarrow>
        map_of (recursive_merge original addition) k =
          (case map_of addition k of
             None \<Rightarrow> map_of original k
           | Some v \<Rightarrow> Some (merge_value (map_of original k) v)))
   \<and> (schemas ''a'' = Some schema
        \<and> schema (Dict [(''x'', Atom vx)]) = Inr (Dict [(''x'', Atom vx)])
        \<and> schema (Dict [(''y'', Atom vy)]) = Inr (Dict [(''y'', Atom vy)]) \<longrightarrow>
        (\<exists>s1 s2 m.
           configure schemas [(''a'', Dict [(''x'', Atom vx)])] s = (Inr (), s1)
           \<and> configure schemas [(''a'', Dict [(''y'', Atom vy)])] s1 = (Inr (), s2)
           \<and> map_of (configuration s2) ''a'' = Some (Dict m)
           \<and> map_of m ''x'' = Some (Atom vx) \<and> map_of m ''y'' = Some (Atom vy)))"
proof (intro conjI impI)
  assume "distinct (map fst config) \<and> validates schemas config"
  then show "\<exists>s'. configure schemas config s = (Inr (), s')
         \<and> cache s' = cache s \<and> guard s' = guard s
         \<and> (\<forall>token. map_of (configuration s') token
                       = resolved_entry schemas config (configuration s) token)
         \<and> (\<forall>token. map_of (pending s') token
                       = pending_entry schemas config (pending s) token)"
    unfolding configure_def
    by (elim conjE) (rule configure_items_entries)
next
  assume "distinct (map fst addition)"
  then show "map_of (recursive_merge original addition) k =
          (case map_of addition k of
             None \<Rightarrow> map_of original k
           | Some v \<Rightarrow> Some (merge_value (map_of original k) v))"
    by (rule recursive_merge_lookup)
next
  assume "schemas ''a'' = Some schema
        \<and> schema (Dict [(''x'', Atom vx)]) = Inr (Dict [(''x'', Atom vx)])
        \<and> schema (Dict [(''y'', Atom vy)]) = Inr (Dict [(''y'', Atom vy)])"
  then show "\<exists>s1 s2 m.
           configure schemas [(''a'', Dict [(''x'', Atom vx)])] s = (Inr (), s1)
           \<and> configure schemas [(''a'', Dict [(''y'', Atom vy)])] s1 = (Inr (), s2)
           \<and> map_of (configuration s2) ''a'' = Some (Dict m)
           \<and> map_of m ''x'' = Some (Atom vx) \<and> map_of m ''y'' = Some (Atom vy)"
    by (elim conjE) (rule configure_twice)
qed


theorem configure_merges_witness:
  "distinct (map fst two_tokens) \<and> validates only_a two_tokens
   \<and> (\<exists>s'. configure only_a two_tokens (init :: (nat, int) assembly) = (Inr (), s')
          \<and> map_of (configuration s') ''a'' = Some (Dict [(''x'', Atom 1)])
          \<and> map_of (configuration s') ''b'' = None
          \<and> map_of (pending s') ''b'' = Some (Atom 7)
          \<and> map_of (pending s') ''a'' = None)
   \<and> distinct (map fst [(''y'', Atom (2::int))])
   \<and> map_of (recursive_merge [(''x'', Atom 1)] [(''y'', Atom (2::int))]) ''y'' = Some (Atom 2)
   \<and> only_a ''a'' = Some pass_schema
   \<and> pass_schema (Dict [(''x'', Atom 1)]) = Inr (Dict [(''x'', Atom 1)])
   \<and> pass_schema (Dict [(''y'', Atom 2)]) = Inr (Dict [(''y'', Atom 2)])
   \<and> (\<exists>s1 s2 m.
         configure only_a [(''a'', Dict [(''x'', Atom 1)])] (init :: (nat, int) assembly) = (Inr (), s1)
         \<and> configure only_a [(''a'', Dict [(''y'', Atom 2)])] s1 = (Inr (), s2)
         \<and> map_of (configuration s2) ''a'' = Some (Dict m)
         \<and> map_of m ''x'' = Some (Atom 1) \<and> map_of m ''y'' = Some (Atom 2))"
proof -
  note at = configure_merges [where config = two_tokens and schemas = only_a
      and s = "init :: (nat, int) assembly" and addition = "[(''y'', Atom (2::int))]"
      and original = "[(''x'', Atom 1)]" and k = "''y''" and schema = pass_schema
      and vx = 1 and vy = 2]
  note part1 = at [THEN conjunct1]
  note part2 = at [THEN conjunct2, THEN conjunct1]
  note part3 = at [THEN conjunct2, THEN conjunct2]
  have d: "distinct (map fst two_tokens)"
    by (simp add: two_tokens_def)
  have v: "validates only_a two_tokens"
    by (simp add: validates_def two_tokens_def only_a_def pass_schema_def)
  have dy: "distinct (map fst [(''y'', Atom (2::int))])"
    by simp
  have a: "only_a ''a'' = Some pass_schema"
    by (simp add: only_a_def)
  have px: "pass_schema (Dict [(''x'', Atom 1)]) = Inr (Dict [(''x'', Atom 1)])"
    and py: "pass_schema (Dict [(''y'', Atom 2)]) = Inr (Dict [(''y'', Atom 2)])"
    by (simp_all add: pass_schema_def)
  from part1 [rule_format, OF conjI, OF d v] obtain s' where
    run: "configure only_a two_tokens (init :: (nat, int) assembly) = (Inr (), s')"
    and conf: "\<forall>token. map_of (configuration s') token
                 = resolved_entry only_a two_tokens (configuration (init :: (nat, int) assembly)) token"
    and pend: "\<forall>token. map_of (pending s') token
                 = pending_entry only_a two_tokens (pending (init :: (nat, int) assembly)) token"
    by (elim exE conjE)
  have ca: "map_of (configuration s') ''a'' = Some (Dict [(''x'', Atom 1)])"
    unfolding conf [rule_format]
    by (simp add: resolved_entry_def two_tokens_def only_a_def pass_schema_def init_def
          merge_value_def)
  have cb: "map_of (configuration s') ''b'' = None"
    unfolding conf [rule_format]
    by (simp add: resolved_entry_def two_tokens_def only_a_def pass_schema_def init_def
          merge_value_def)
  have pb: "map_of (pending s') ''b'' = Some (Atom 7)"
    unfolding pend [rule_format]
    by (simp add: pending_entry_def two_tokens_def only_a_def init_def merge_value_def)
  have pa: "map_of (pending s') ''a'' = None"
    unfolding pend [rule_format]
    by (simp add: pending_entry_def two_tokens_def only_a_def init_def merge_value_def)
  from run ca cb pb pa
  have first: "\<exists>s'. configure only_a two_tokens (init :: (nat, int) assembly) = (Inr (), s')
          \<and> map_of (configuration s') ''a'' = Some (Dict [(''x'', Atom 1)])
          \<and> map_of (configuration s') ''b'' = None
          \<and> map_of (pending s') ''b'' = Some (Atom 7)
          \<and> map_of (pending s') ''a'' = None"
    by (intro exI [of _ s'] conjI)
  from part2 [rule_format, OF dy]
  have second: "map_of (recursive_merge [(''x'', Atom 1)] [(''y'', Atom (2::int))]) ''y'' = Some (Atom 2)"
    by (simp add: merge_value_def del: recursive_merge.simps)
  have hyp3: "only_a ''a'' = Some pass_schema
        \<and> pass_schema (Dict [(''x'', Atom 1)]) = Inr (Dict [(''x'', Atom 1)])
        \<and> pass_schema (Dict [(''y'', Atom 2)]) = Inr (Dict [(''y'', Atom 2)])"
    using a px py by (intro conjI)
  note third = part3 [rule_format, OF hyp3]
  from d v first dy second a px py third show ?thesis
    by (intro conjI)
qed

section \<open>get_configuration\<close>

text \<open>
  When the loop over the pending keys ends normally, the variable \<^verbatim>\<open>token\<close> holds
  the last pending key if there was one, and the requested token only if nothing was
  pending.
\<close>

lemma resolve_pending_token:
  "resolve_pending schemas keys token s = (Inr token', s') \<Longrightarrow> token' = last (token # keys)"
proof (induction keys arbitrary: token s)
  case Nil
  then show ?case by simp
next
  case (Cons k keys)
  from Cons.prems have "\<exists>s1. resolve_pending schemas keys k s1 = (Inr token', s')"
    by (auto simp: Let_def split: option.splits sum.splits)
  then obtain s1 where "resolve_pending schemas keys k s1 = (Inr token', s')" ..
  from Cons.IH [OF this] show ?case by simp
qed

text \<open>
  C2. The claim: \<^verbatim>\<open>get_configuration(t)\<close> returns the resolved configuration of the
  requested token \<open>t\<close> and raises a key-lookup error if \<open>t\<close> is still absent. The code
  at \<^verbatim>\<open>get_configuration('a')\<close>, with \<^verbatim>\<open>b\<close> pending and a schema registered for
  \<^verbatim>\<open>b\<close> only: \<^verbatim>\<open>b\<close> is resolved and evicted under the lock, and then the data of
  \<^verbatim>\<open>b\<close> is returned, where the claim has \<^verbatim>\<open>KeyError('a')\<close>.
\<close>

theorem get_configuration_other_token:
  "get_configuration only_b ''a'' pending_b
     = (Inr (Dict [(''x'', Atom 1)]),
        \<lparr>cache = [], configuration = [(''b'', Dict [(''x'', Atom 1)])], pending = [],
         guard = 0, journal = [(Pending, 1), (Configuration, 1)]\<rparr>)"
  by (simp add: get_configuration_def pending_b_def init_def only_b_def pass_schema_def
        guard_acquire_def finally_release_def write_pending_def write_configuration_def)

section \<open>The guard lock\<close>

text \<open>
  \<^verbatim>\<open>get_configuration\<close> writes \<^verbatim>\<open>pending\<close> and \<^verbatim>\<open>configuration\<close> with the
  lock held, and \<^verbatim>\<open>acquire\<close> writes \<^verbatim>\<open>cache\<close> with the lock held.
\<close>

lemma guarded_append: "guarded (xs @ ys) = (guarded xs \<and> guarded ys)"
  by (simp add: guarded_def)

lemma resolve_pending_guarded:
  "0 < guard s \<Longrightarrow> guarded (journal s) \<Longrightarrow>
   guarded (journal (snd (resolve_pending schemas keys token s)))
   \<and> guard (snd (resolve_pending schemas keys token s)) = guard s"
proof (induction keys arbitrary: token s)
  case Nil
  then show ?case by simp
next
  case (Cons k keys)
  show ?case
  proof (cases "schemas k")
    case None
    with Cons show ?thesis by simp
  next
    case (Some schema)
    show ?thesis
    proof (cases "map_of (pending s) k")
      case None
      with Some Cons.prems show ?thesis by simp
    next
      case raw: (Some raw)
      let ?s1 = "write_pending (AList.delete k (pending s)) s"
      from Cons.prems have s1: "0 < guard ?s1" "guarded (journal ?s1)"
        by (simp_all add: write_pending_def guarded_append) (simp add: guarded_def)
      show ?thesis
      proof (cases "schema raw")
        case (Inl e)
        with Some raw s1 Cons.prems show ?thesis
          by (simp add: Let_def) (simp add: write_pending_def)
      next
        case (Inr data)
        let ?s2 = "write_configuration (recursive_merge (configuration ?s1) [(k, data)]) ?s1"
        from s1 have s2: "0 < guard ?s2" "guarded (journal ?s2)"
          by (simp_all add: write_configuration_def guarded_append) (simp add: guarded_def)
        have g: "guard ?s2 = guard s"
          by (simp add: write_configuration_def write_pending_def)
        from Cons.IH [OF s2] g Some raw Inr show ?thesis
          by (simp add: Let_def)
      qed
    qed
  qed
qed

lemma get_configuration_guarded:
  "guarded (journal s) \<Longrightarrow> guarded (journal (snd (get_configuration schemas token s)))"
proof (cases "map_of (configuration s) token")
  case None
  assume g: "guarded (journal s)"
  let ?s0 = "guard_acquire s"
  from g have "0 < guard ?s0" "guarded (journal ?s0)"
    by (simp_all add: guard_acquire_def)
  from resolve_pending_guarded [OF this, of schemas "map fst (pending ?s0)" token]
  have "guarded (journal (snd (finally_release (resolve_pending schemas (map fst (pending ?s0)) token ?s0))))"
    by (cases "resolve_pending schemas (map fst (pending ?s0)) token ?s0")
       (simp add: finally_release_def)
  with None show ?thesis
    by (auto simp: get_configuration_def Let_def split: prod.splits sum.splits option.splits)
next
  case (Some d)
  assume "guarded (journal s)"
  with Some show ?thesis by (simp add: get_configuration_def)
qed

lemma acquire_write_guarded:
  assumes "map_of (cache s) key = None"
    and "instantiator arguments (guard_acquire s) = (Inr instance, s1)"
    and "acquire key instantiator arguments s = (Inr instance', s')"
  shows "journal s' = journal s1 @ [(Cache, guard s1)] \<and> 0 < guard s1"
  using assms
  by (auto simp: acquire_def Let_def finally_release_def write_cache_def guard_acquire_def
        split: if_splits)

text \<open>
  C8. The claim: every mutation of \<^verbatim>\<open>cache\<close>, \<^verbatim>\<open>configuration\<close> and
  \<^verbatim>\<open>pending\<close> happens with the guard lock held, in particular in
  \<^verbatim>\<open>configure\<close>. The code at \<^verbatim>\<open>configure({'a': {'x': 1}})\<close> on a new assembly
  with no schema registered: \<^verbatim>\<open>pending\<close> is written while the lock is not held
  (\<^verbatim>\<open>configure\<close> never takes it).
\<close>

theorem configure_unguarded:
  "configure no_schemas [(''a'', Dict [(''x'', Atom 1)])] (init :: (nat, int) assembly)
     = (Inr (),
        \<lparr>cache = [], configuration = [], pending = [(''a'', Dict [(''x'', Atom 1)])],
         guard = 0, journal = [(Pending, 0)]\<rparr>)
   \<and> \<not> guarded (journal (snd (configure no_schemas [(''a'', Dict [(''x'', Atom 1)])]
                                  (init :: (nat, int) assembly))))"
  by (simp add: configure_def init_def no_schemas_def write_pending_def guarded_def)

section \<open>collate\<close>

text \<open>The set that the two loops of \<^verbatim>\<open>collate\<close> build, without duplicates.\<close>

lemma collate_dependencies_set:
  "set (collate_dependencies U superclass unit ds units) =
     set units \<union> {dependency_get U d unit | d.
                     d \<in> set ds \<and> issubclass U (dependency_unit U d) superclass}"
  by (induction ds arbitrary: units) auto

lemma collate_dependencies_distinct:
  "distinct units \<Longrightarrow> distinct (collate_dependencies U superclass unit ds units)"
  by (induction ds arbitrary: units) auto

lemma collate_units_set:
  "set (collate_units U superclass xs units) =
     set units \<union> {unit \<in> set xs. isinstance U unit superclass}
       \<union> {dependency_get U d unit | unit d.
            unit \<in> set xs \<and> d \<in> set (dependencies U unit)
            \<and> issubclass U (dependency_unit U d) superclass}"
  by (induction xs arbitrary: units) (auto simp: collate_dependencies_set)

lemma collate_units_distinct:
  "distinct units \<Longrightarrow> distinct (collate_units U superclass xs units)"
  by (induction xs arbitrary: units) (auto simp: collate_dependencies_distinct)

lemma collate_units_matching:
  "set (collate_units U superclass (map snd (cache s)) []) = matching U superclass s"
  unfolding collate_units_set matching_def
  by auto

text \<open>
  C6. \<^verbatim>\<open>collate(S, single=False)\<close> returns the full set of matching instances;
  \<^verbatim>\<open>collate(S, single=True)\<close> raises when more than one instance matches, returns
  the sole instance when exactly one matches and returns \<^verbatim>\<open>None\<close> when none does.
\<close>

theorem collate_matches:
  "(collate U superclass False s :: 'e error + 'u collated) = Inr (Units (matching U superclass s))
   \<and> (1 < card (matching U superclass s) \<longrightarrow>
        (collate U superclass True s :: 'e error + 'u collated) = Inl Exception)
   \<and> (\<forall>unit. matching U superclass s = {unit} \<longrightarrow>
        (collate U superclass True s :: 'e error + 'u collated) = Inr (Instance unit))
   \<and> (matching U superclass s = {} \<longrightarrow>
        (collate U superclass True s :: 'e error + 'u collated) = Inr NoneValue)"
proof -
  let ?units = "collate_units U superclass (map snd (cache s)) []"
  have m: "set ?units = matching U superclass s"
    by (rule collate_units_matching)
  have d: "distinct ?units"
    by (rule collate_units_distinct) simp
  from d m have c: "card (matching U superclass s) = length ?units"
    using distinct_card by fastforce
  have many: "(collate U superclass True s :: 'e error + 'u collated) = Inl Exception"
    if "1 < card (matching U superclass s)"
    using that c by (simp add: collate_def)
  have sole: "(collate U superclass True s :: 'e error + 'u collated) = Inr (Instance unit)"
    if "matching U superclass s = {unit}" for unit
  proof -
    from that c have "length ?units = 1" by simp
    then obtain x where x: "?units = [x]"
      by (cases ?units) auto
    with m that have "x = unit" by auto
    with x show ?thesis by (simp add: collate_def)
  qed
  have zero: "(collate U superclass True s :: 'e error + 'u collated) = Inr NoneValue"
    if "matching U superclass s = {}"
    using that m by (simp add: collate_def)
  from m many sole zero show ?thesis
    by (simp add: collate_def)
qed

theorem collate_matches_witness:
  "1 < card (matching daemon_units ''Daemon'' daemon_assembly)
   \<and> (collate daemon_units ''Daemon'' False daemon_assembly :: unit error + nat collated)
       = Inr (Units {1, 3})
   \<and> (collate daemon_units ''Daemon'' True daemon_assembly :: unit error + nat collated)
       = Inl Exception
   \<and> matching daemon_units ''Mount'' daemon_assembly = {2}
   \<and> (collate daemon_units ''Mount'' True daemon_assembly :: unit error + nat collated)
       = Inr (Instance 2)
   \<and> matching daemon_units ''Proxy'' daemon_assembly = {}
   \<and> (collate daemon_units ''Proxy'' True daemon_assembly :: unit error + nat collated)
       = Inr NoneValue"
proof -
  have daemon: "matching daemon_units ''Daemon'' daemon_assembly = {1, 3}"
    by (auto simp add: matching_def daemon_units_def daemon_assembly_def init_def)
  have mount: "matching daemon_units ''Mount'' daemon_assembly = {2}"
    by (auto simp add: matching_def daemon_units_def daemon_assembly_def init_def)
  have proxy: "matching daemon_units ''Proxy'' daemon_assembly = {}"
    by (auto simp add: matching_def daemon_units_def daemon_assembly_def init_def)
  from daemon have many: "1 < card (matching daemon_units ''Daemon'' daemon_assembly)"
    by simp
  note at_daemon = collate_matches [where ?'e = unit, of daemon_units "''Daemon''" daemon_assembly]
  note at_mount = collate_matches [where ?'e = unit, of daemon_units "''Mount''" daemon_assembly]
  note at_proxy = collate_matches [where ?'e = unit, of daemon_units "''Proxy''" daemon_assembly]
  from at_daemon many daemon
  have 1: "(collate daemon_units ''Daemon'' False daemon_assembly :: unit error + nat collated)
             = Inr (Units {1, 3})"
    and 2: "(collate daemon_units ''Daemon'' True daemon_assembly :: unit error + nat collated)
             = Inl Exception"
    by simp_all
  from at_mount mount
  have 3: "(collate daemon_units ''Mount'' True daemon_assembly :: unit error + nat collated)
             = Inr (Instance 2)"
    by blast
  from at_proxy proxy
  have 4: "(collate daemon_units ''Proxy'' True daemon_assembly :: unit error + nat collated)
             = Inr NoneValue"
    by blast
  from many mount proxy 1 2 3 4 show ?thesis
    by blast
qed

end
